theory Spec2Isabelle
  imports Main
begin

section \<open>The compute functions\<close>

text \<open>
  \<^verbatim>\<open>fibonacci\<close> (concu_vs_parall.py) and \<^verbatim>\<open>fibonacci_naive\<close>
  (concu_vs_parall_with_patters.py) have the same body:
  \<^verbatim>\<open>
  if n <= 1:
      return n
  return f(n - 1) + f(n - 2)
  \<close>
  Python integers are unbounded, so the argument and the result are \<open>int\<close>. The
  interpreter's recursion limit is a setting of the host and is not part of the model.
\<close>

function fibonacci :: "int \<Rightarrow> int" where
  "fibonacci n = (if n \<le> 1 then n else fibonacci (n - 1) + fibonacci (n - 2))"
  by pat_completeness auto
termination
  by (relation "measure nat") auto

function fibonacci_naive :: "int \<Rightarrow> int" where
  "fibonacci_naive n =
     (if n \<le> 1 then n else fibonacci_naive (n - 1) + fibonacci_naive (n - 2))"
  by pat_completeness auto
termination
  by (relation "measure nat") auto

declare fibonacci.simps [simp del]
declare fibonacci_naive.simps [simp del]

text \<open>
  The same two bodies once more, as recursion that is allowed not to return: \<open>None\<close>
  stands for a call that never comes back. Nothing about termination is built into
  these two definitions, so that it can be stated and proved.
\<close>

partial_function (option) fibonacci_run :: "int \<Rightarrow> int option" where
  "fibonacci_run n =
     (if n \<le> 1 then Some n
      else Option.bind (fibonacci_run (n - 1)) (\<lambda>a.
           Option.bind (fibonacci_run (n - 2)) (\<lambda>b. Some (a + b))))"

partial_function (option) fibonacci_naive_run :: "int \<Rightarrow> int option" where
  "fibonacci_naive_run n =
     (if n \<le> 1 then Some n
      else Option.bind (fibonacci_naive_run (n - 1)) (\<lambda>a.
           Option.bind (fibonacci_naive_run (n - 2)) (\<lambda>b. Some (a + b))))"

declare fibonacci_run.simps [code]
declare fibonacci_naive_run.simps [code]

text \<open>
  Modelled from the spec: the test suite's oracle, "an independent, non-recursive method
  (e.g., iterative accumulation)". The repository has no test suite; the oracle is the
  usual loop
  \<^verbatim>\<open>
  a, b = 0, 1
  for _ in range(n):
      a, b = b, a + b
  return a
  \<close>
\<close>

fun closed_form_loop :: "nat \<Rightarrow> int \<Rightarrow> int \<Rightarrow> int" where
  "closed_form_loop 0 a b = a"
| "closed_form_loop (Suc k) a b = closed_form_loop k b (a + b)"

definition closed_form :: "int \<Rightarrow> int" where
  "closed_form n = closed_form_loop (nat n) 0 1"

text \<open>
  \<^verbatim>\<open>fibonacci_memo\<close> is the same body under \<^verbatim>\<open>@lru_cache(maxsize=None)\<close>. The
  decorator's wrapper looks the argument up in a dictionary; on a hit it returns the
  stored value, on a miss it calls the body, stores the result under the argument and
  returns it. The recursive calls inside the body go through the wrapper again. With
  \<^verbatim>\<open>maxsize=None\<close> the dictionary has no bound and nothing is ever removed from it.
  The dictionary is a map, passed in and returned updated; the left operand of
  \<^verbatim>\<open>+\<close> is evaluated first.
\<close>

type_synonym cache = "int \<rightharpoonup> int"

function fibonacci_memo :: "int \<Rightarrow> cache \<Rightarrow> int \<times> cache" where
  "fibonacci_memo n c =
     (case c n of
        Some v \<Rightarrow> (v, c)
      | None \<Rightarrow>
          (if n \<le> 1 then (n, c(n \<mapsto> n))
           else (case fibonacci_memo (n - 1) c of (a, c1) \<Rightarrow>
                 case fibonacci_memo (n - 2) c1 of (b, c2) \<Rightarrow>
                   (a + b, c2(n \<mapsto> a + b)))))"
  by pat_completeness auto
termination
  by (relation "measure (\<lambda>(n, c). nat n)") auto

declare fibonacci_memo.simps [simp del]

section \<open>Timing instrumentation\<close>

text \<open>
  What the program can observe and change outside its arguments: the number of
  \<^verbatim>\<open>time.time()\<close> calls made so far, the reports printed by \<^verbatim>\<open>measure_time\<close>
  (the decorated function's name and the elapsed time, in place of the formatted line)
  and the dictionary of \<^verbatim>\<open>fibonacci_memo\<close>'s cache in the main process.
\<close>

record 't world =
  clock_reads :: nat
  stdout :: "(string \<times> 't) list"
  memo_cache :: cache

text \<open>
  What the source leaves to the machine it runs on: the value of each successive
  \<^verbatim>\<open>time.time()\<close> call, the order in which the submitted calls of a pool are carried
  out, the worker process that gets each call of a process pool, and the cache a worker
  process starts with (the parent's under fork, an empty one under spawn).
\<close>

record 't host =
  time_source :: "nat \<Rightarrow> 't"
  completion_order :: "nat list"
  worker_of :: "nat \<Rightarrow> nat"
  child_cache :: cache

text \<open>
  The exceptions that occur. \<open>Exception m\<close> is Python's built-in \<^verbatim>\<open>Exception\<close> with the
  message \<open>m\<close>, and \<open>RecursionError\<close> the built-in that the interpreter raises when a
  call would exceed its recursion limit; both can be pickled and rebuilt.
  \<open>NotPicklable\<close> and \<open>NotLoadable\<close> stand for exceptions of a class whose instances
  cannot be pickled, or can be pickled but not rebuilt from their pickle.
  \<open>PicklingError\<close> is the error pickling raises, and \<open>BrokenProcessPool\<close> the error of
  concurrent.futures for a process pool that is no longer usable.
\<close>

datatype exn =
    Exception string
  | RecursionError
  | NotPicklable string
  | NotLoadable string
  | PicklingError
  | BrokenProcessPool

definition time_time :: "(nat \<Rightarrow> 't) \<Rightarrow> 't world \<Rightarrow> 't \<times> 't world" where
  "time_time tm w = (tm (clock_reads w), w\<lparr>clock_reads := Suc (clock_reads w)\<rparr>)"

text \<open>
  \<^verbatim>\<open>measure_time\<close> is the same decorator in both files:
  \<^verbatim>\<open>
  def wrapper(*args, **kwargs):
      start_time = time.time()
      result = func(*args, **kwargs)
      end_time = time.time()
      elapsed = end_time - start_time
      print(f"Function '{func.__name__}' took {elapsed:.4f} seconds to complete.")
      return result
  \<close>
  There is no \<^verbatim>\<open>try\<close> around the call: when \<^verbatim>\<open>func\<close> raises, the exception leaves
  the wrapper at once. \<open>Inl\<close> is a raised exception, \<open>Inr\<close> a returned value.
\<close>

definition measure_time ::
  "(nat \<Rightarrow> 't::minus) \<Rightarrow> string \<Rightarrow> ('a \<Rightarrow> 't world \<Rightarrow> ('e + 'b) \<times> 't world) \<Rightarrow>
   'a \<Rightarrow> 't world \<Rightarrow> ('e + 'b) \<times> 't world" where
  "measure_time tm name func args w =
     (case time_time tm w of (start_time, w1) \<Rightarrow>
        (case func args w1 of
           (Inl e, w2) \<Rightarrow> (Inl e, w2)
         | (Inr result, w2) \<Rightarrow>
             (case time_time tm w2 of (end_time, w3) \<Rightarrow>
                (let elapsed = end_time - start_time
                 in (Inr result, w3\<lparr>stdout := stdout w3 @ [(name, elapsed)]\<rparr>)))))"

section \<open>The executors\<close>

text \<open>
  \<^verbatim>\<open>list(executor.map(fn, numbers))\<close> inside \<^verbatim>\<open>with ...Executor() as executor\<close>.
  \<^verbatim>\<open>map\<close> submits one call per element and keeps the futures in the order of
  submission. The workers carry the calls out in an order the source does not fix:
  \<open>run_calls\<close> runs them in the host's order (an index out of range or already done
  is skipped), each call as one step. \<open>results\<close> is the iterator that \<^verbatim>\<open>list\<close>
  consumes: it takes the futures in the order of submission; a future that is not done
  yet is waited for, that is, its call is carried out now; the first future holding an
  exception raises it, and the calls not yet started are cancelled.
\<close>

fun run_calls ::
  "(nat \<Rightarrow> 'a \<Rightarrow> 's \<Rightarrow> ('e + 'b) \<times> 's) \<Rightarrow> 'a list \<Rightarrow> nat list \<Rightarrow>
   (nat \<rightharpoonup> 'e + 'b) \<Rightarrow> 's \<Rightarrow> (nat \<rightharpoonup> 'e + 'b) \<times> 's" where
  "run_calls fn args [] futures s = (futures, s)"
| "run_calls fn args (i # order) futures s =
     (if i < length args \<and> futures i = None
      then (case fn i (args ! i) s of
              (r, s') \<Rightarrow> run_calls fn args order (futures(i \<mapsto> r)) s')
      else run_calls fn args order futures s)"

fun results ::
  "(nat \<Rightarrow> 'a \<Rightarrow> 's \<Rightarrow> ('e + 'b) \<times> 's) \<Rightarrow> (nat \<times> 'a) list \<Rightarrow>
   (nat \<rightharpoonup> 'e + 'b) \<Rightarrow> 's \<Rightarrow> ('e + 'b list) \<times> 's" where
  "results fn [] futures s = (Inr [], s)"
| "results fn ((i, a) # rest) futures s =
     (case (case futures i of Some r \<Rightarrow> (r, s) | None \<Rightarrow> fn i a s) of
        (Inl e, s') \<Rightarrow> (Inl e, s')
      | (Inr v, s') \<Rightarrow>
          (case results fn rest futures s' of
             (Inl e, s'') \<Rightarrow> (Inl e, s'')
           | (Inr vs, s'') \<Rightarrow> (Inr (v # vs), s'')))"

definition executor_map ::
  "(nat \<Rightarrow> 'a \<Rightarrow> 's \<Rightarrow> ('e + 'b) \<times> 's) \<Rightarrow> nat list \<Rightarrow> 'a list \<Rightarrow> 's \<Rightarrow>
   ('e + 'b list) \<times> 's" where
  "executor_map fn order args s =
     (case run_calls fn args order Map.empty s of
        (futures, s') \<Rightarrow> results fn (enumerate 0 args) futures s')"

text \<open>
  A thread pool runs every call in the one address space of the main process, so all
  calls work on its cache, and a future holds the very value or exception of its call.

  A process pool runs the call with index \<open>i\<close> in the worker process \<open>worker_of i\<close>, on
  that worker's own cache; the main process gets the outcomes only, and its cache stays
  as it was. An outcome crosses the process boundary pickled. The integers that the
  compute functions return pickle and load as they are. For an exception, \<open>sent_back\<close>
  gives what the main process receives: the exception rebuilt, or the pickling error
  that the worker sends in its place when it cannot pickle it, or nothing when the main
  process cannot load the pickle. In the last case the pool is broken: the future of
  that call, and every future not done by then, holds \<open>BrokenProcessPool\<close>, and no
  further call is carried out. The state of a process pool is whether it is broken,
  together with the cache of each worker.
\<close>

fun sent_back :: "exn \<Rightarrow> exn option" where
  "sent_back (NotPicklable m) = Some PicklingError"
| "sent_back (NotLoadable m) = None"
| "sent_back e = Some e"

definition thread_call ::
  "('a \<Rightarrow> cache \<Rightarrow> ('e + 'b) \<times> cache) \<Rightarrow> nat \<Rightarrow> 'a \<Rightarrow> cache \<Rightarrow> ('e + 'b) \<times> cache" where
  "thread_call task i a c = task a c"

fun process_call ::
  "(nat \<Rightarrow> nat) \<Rightarrow> ('a \<Rightarrow> cache \<Rightarrow> (exn + 'b) \<times> cache) \<Rightarrow> nat \<Rightarrow> 'a \<Rightarrow>
   bool \<times> (nat \<Rightarrow> cache) \<Rightarrow> (exn + 'b) \<times> bool \<times> (nat \<Rightarrow> cache)" where
  "process_call wk task i a (broken, cs) =
     (if broken then (Inl BrokenProcessPool, (True, cs))
      else (case task a (cs (wk i)) of
              (Inr v, c') \<Rightarrow> (Inr v, (False, cs(wk i := c')))
            | (Inl e, c') \<Rightarrow>
                (case sent_back e of
                   Some e' \<Rightarrow> (Inl e', (False, cs(wk i := c')))
                 | None \<Rightarrow> (Inl BrokenProcessPool, (True, cs(wk i := c'))))))"

definition thread_pool ::
  "('a \<Rightarrow> cache \<Rightarrow> ('e + 'b) \<times> cache) \<Rightarrow> 't host \<Rightarrow> 'a list \<Rightarrow> 't world \<Rightarrow>
   ('e + 'b list) \<times> 't world" where
  "thread_pool task h numbers w =
     (case executor_map (thread_call task) (completion_order h) numbers (memo_cache w) of
        (r, c') \<Rightarrow> (r, w\<lparr>memo_cache := c'\<rparr>))"

definition process_pool ::
  "('a \<Rightarrow> cache \<Rightarrow> (exn + 'b) \<times> cache) \<Rightarrow> 't host \<Rightarrow> 'a list \<Rightarrow> 't world \<Rightarrow>
   (exn + 'b list) \<times> 't world" where
  "process_pool task h numbers w =
     (case executor_map (process_call (worker_of h) task) (completion_order h) numbers
             (False, \<lambda>p. child_cache h) of
        (r, pool) \<Rightarrow> (r, w))"

section \<open>The strategies\<close>

text \<open>
  The compute functions as the calls a worker makes: neither \<^verbatim>\<open>fibonacci\<close> nor
  \<^verbatim>\<open>fibonacci_naive\<close> raises or touches the cache; \<^verbatim>\<open>fibonacci_memo\<close> reads
  and extends it.
\<close>

definition fibonacci_call :: "int \<Rightarrow> cache \<Rightarrow> (exn + int) \<times> cache" where
  "fibonacci_call n c = (Inr (fibonacci n), c)"

definition fibonacci_naive_call :: "int \<Rightarrow> cache \<Rightarrow> (exn + int) \<times> cache" where
  "fibonacci_naive_call n c = (Inr (fibonacci_naive n), c)"

definition fibonacci_memo_call :: "int \<Rightarrow> cache \<Rightarrow> (exn + int) \<times> cache" where
  "fibonacci_memo_call n c = (case fibonacci_memo n c of (v, c') \<Rightarrow> (Inr v, c'))"

text \<open>concu_vs_parall.py\<close>

definition multi_threaded_fibonacci ::
  "('t::minus) host \<Rightarrow> int list \<Rightarrow> 't world \<Rightarrow> (exn + int list) \<times> 't world" where
  "multi_threaded_fibonacci h =
     measure_time (time_source h) ''multi_threaded_fibonacci'' (thread_pool fibonacci_call h)"

definition multi_process_fibonacci ::
  "('t::minus) host \<Rightarrow> int list \<Rightarrow> 't world \<Rightarrow> (exn + int list) \<times> 't world" where
  "multi_process_fibonacci h =
     measure_time (time_source h) ''multi_process_fibonacci'' (process_pool fibonacci_call h)"

text \<open>concu_vs_parall_with_patters.py\<close>

definition multi_threaded_fibonacci_naive ::
  "('t::minus) host \<Rightarrow> int list \<Rightarrow> 't world \<Rightarrow> (exn + int list) \<times> 't world" where
  "multi_threaded_fibonacci_naive h =
     measure_time (time_source h) ''multi_threaded_fibonacci_naive''
       (thread_pool fibonacci_naive_call h)"

definition multi_threaded_fibonacci_memo ::
  "('t::minus) host \<Rightarrow> int list \<Rightarrow> 't world \<Rightarrow> (exn + int list) \<times> 't world" where
  "multi_threaded_fibonacci_memo h =
     measure_time (time_source h) ''multi_threaded_fibonacci_memo''
       (thread_pool fibonacci_memo_call h)"

definition multi_process_fibonacci_naive ::
  "('t::minus) host \<Rightarrow> int list \<Rightarrow> 't world \<Rightarrow> (exn + int list) \<times> 't world" where
  "multi_process_fibonacci_naive h =
     measure_time (time_source h) ''multi_process_fibonacci_naive''
       (process_pool fibonacci_naive_call h)"

definition multi_process_fibonacci_memo ::
  "('t::minus) host \<Rightarrow> int list \<Rightarrow> 't world \<Rightarrow> (exn + int list) \<times> 't world" where
  "multi_process_fibonacci_memo h =
     measure_time (time_source h) ''multi_process_fibonacci_memo''
       (process_pool fibonacci_memo_call h)"

text \<open>
  Modelled from the spec: the test harness of concrete scenario 4, in which the worker's
  call raises for the input 999999 and is \<^verbatim>\<open>fibonacci_naive\<close> otherwise. The
  repository has no such harness; the thread-pool strategy looks \<^verbatim>\<open>fibonacci_naive\<close>
  up as a module global at the time of the call, which is where a harness replaces it.
\<close>

definition injected_failure :: "int \<Rightarrow> exn + int" where
  "injected_failure n =
     (if n = 999999 then Inl (Exception ''injected failure'') else Inr (fibonacci_naive n))"

definition injected_failure_call :: "int \<Rightarrow> cache \<Rightarrow> (exn + int) \<times> cache" where
  "injected_failure_call n c = (injected_failure n, c)"

definition multi_threaded_fibonacci_naive_injected ::
  "('t::minus) host \<Rightarrow> int list \<Rightarrow> 't world \<Rightarrow> (exn + int list) \<times> 't world" where
  "multi_threaded_fibonacci_naive_injected h =
     measure_time (time_source h) ''multi_threaded_fibonacci_naive''
       (thread_pool injected_failure_call h)"

text \<open>
  The body of \<^verbatim>\<open>fibonacci_naive\<close> once more, under the interpreter's recursion
  limit: \<open>d\<close> is the number of nested calls of the function that the limit still allows
  where the worker makes the call. A call that would go beyond raises
  \<^verbatim>\<open>RecursionError\<close>; no frame of the function catches it, so it leaves the
  outermost call. On a list of integers this is how the computation of a task comes
  to raise.
\<close>

fun fibonacci_naive_guarded :: "nat \<Rightarrow> int \<Rightarrow> exn + int" where
  "fibonacci_naive_guarded 0 n = Inl RecursionError"
| "fibonacci_naive_guarded (Suc d) n =
     (if n \<le> 1 then Inr n
      else (case fibonacci_naive_guarded d (n - 1) of
              Inl e \<Rightarrow> Inl e
            | Inr a \<Rightarrow>
                (case fibonacci_naive_guarded d (n - 2) of
                   Inl e \<Rightarrow> Inl e
                 | Inr b \<Rightarrow> Inr (a + b))))"

definition fibonacci_naive_guarded_call :: "nat \<Rightarrow> int \<Rightarrow> cache \<Rightarrow> (exn + int) \<times> cache" where
  "fibonacci_naive_guarded_call d n c = (fibonacci_naive_guarded d n, c)"

definition multi_threaded_fibonacci_naive_guarded ::
  "nat \<Rightarrow> ('t::minus) host \<Rightarrow> int list \<Rightarrow> 't world \<Rightarrow> (exn + int list) \<times> 't world" where
  "multi_threaded_fibonacci_naive_guarded d h =
     measure_time (time_source h) ''multi_threaded_fibonacci_naive''
       (thread_pool (fibonacci_naive_guarded_call d) h)"

definition multi_process_fibonacci_naive_guarded ::
  "nat \<Rightarrow> ('t::minus) host \<Rightarrow> int list \<Rightarrow> 't world \<Rightarrow> (exn + int list) \<times> 't world" where
  "multi_process_fibonacci_naive_guarded d h =
     measure_time (time_source h) ''multi_process_fibonacci_naive''
       (process_pool (fibonacci_naive_guarded_call d) h)"

section \<open>A concrete start state and host\<close>

text \<open>
  A freshly started interpreter has read no clock, printed nothing and has an empty
  cache. The host used in the concrete runs counts clock readings in whole seconds,
  finishes the third call first, then the first, and leaves the others to be waited
  for; its process pool has two workers, taking the calls alternately, each starting
  with an empty cache.
\<close>

definition initial_world :: "int world" where
  "initial_world = \<lparr>clock_reads = 0, stdout = [], memo_cache = Map.empty\<rparr>"

definition alternate :: "nat \<Rightarrow> nat" where
  "alternate i = i mod 2"

definition example_host :: "int host" where
  "example_host =
     \<lparr>time_source = int, completion_order = [2, 0], worker_of = alternate,
      child_cache = Map.empty\<rparr>"

section \<open>Notions used in the statements\<close>

text \<open>A cache is consistent when every stored value is the Fibonacci value of its key.\<close>

definition cache_ok :: "cache \<Rightarrow> bool" where
  "cache_ok c \<longleftrightarrow> (\<forall>k v. c k = Some v \<longrightarrow> v = fibonacci_naive k)"

text \<open>
  The outcome of a batch read off the outcomes of its calls in input order: the first
  exception, or else every value.
\<close>

fun first_error_or_values :: "('e + 'b) list \<Rightarrow> 'e + 'b list" where
  "first_error_or_values [] = Inr []"
| "first_error_or_values (Inl e # rs) = Inl e"
| "first_error_or_values (Inr v # rs) =
     (case first_error_or_values rs of Inl e \<Rightarrow> Inl e | Inr vs \<Rightarrow> Inr (v # vs))"

text \<open>
  A worker's call that, started in a state satisfying \<open>I\<close>, has the outcome \<open>f a\<close>
  and leaves a state satisfying \<open>I\<close>: for a call of an executor, and for a compute
  function working on a cache.
\<close>

definition call_spec ::
  "('s \<Rightarrow> bool) \<Rightarrow> ('a \<Rightarrow> 'e + 'b) \<Rightarrow> (nat \<Rightarrow> 'a \<Rightarrow> 's \<Rightarrow> ('e + 'b) \<times> 's) \<Rightarrow> bool" where
  "call_spec I f fn \<longleftrightarrow> (\<forall>i a s. I s \<longrightarrow> fst (fn i a s) = f a \<and> I (snd (fn i a s)))"

definition task_spec ::
  "(cache \<Rightarrow> bool) \<Rightarrow> ('a \<Rightarrow> 'e + 'b) \<Rightarrow> ('a \<Rightarrow> cache \<Rightarrow> ('e + 'b) \<times> cache) \<Rightarrow> bool" where
  "task_spec I f task \<longleftrightarrow> (\<forall>a c. I c \<longrightarrow> fst (task a c) = f a \<and> I (snd (task a c)))"

section \<open>The compute functions: auxiliary facts\<close>

lemma fibonacci_eq_naive: "fibonacci n = fibonacci_naive n"
proof (induction n rule: fibonacci.induct)
  case (1 n)
  then show ?case
    by (simp add: fibonacci.simps [of n] fibonacci_naive.simps [of n])
qed

lemma naive_base: "n \<le> 1 \<Longrightarrow> fibonacci_naive n = n"
  by (subst fibonacci_naive.simps) simp

lemma naive_rec:
  "2 \<le> n \<Longrightarrow> fibonacci_naive n = fibonacci_naive (n - 1) + fibonacci_naive (n - 2)"
  by (subst fibonacci_naive.simps) simp

lemma naive_step:
  assumes "0 \<le> m"
  shows "fibonacci_naive m + fibonacci_naive (m + 1) = fibonacci_naive (m + 1 + 1)"
proof -
  have ge: "2 \<le> m + 1 + 1" using assms by simp
  have eqs: "m + 1 + 1 - 1 = m + 1" "m + 1 + 1 - 2 = m" by simp_all
  from naive_rec [OF ge]
  have "fibonacci_naive (m + 1 + 1) = fibonacci_naive (m + 1) + fibonacci_naive m"
    unfolding eqs .
  then show ?thesis by linarith
qed

lemma loop_shift:
  "0 \<le> m \<Longrightarrow>
   closed_form_loop k (fibonacci_naive m) (fibonacci_naive (m + 1)) = fibonacci_naive (m + int k)"
proof (induction k arbitrary: m)
  case 0
  then show ?case by simp
next
  case (Suc k)
  have "closed_form_loop (Suc k) (fibonacci_naive m) (fibonacci_naive (m + 1))
        = closed_form_loop k (fibonacci_naive (m + 1)) (fibonacci_naive (m + 1 + 1))"
    unfolding closed_form_loop.simps naive_step [OF Suc.prems] ..
  also have "\<dots> = fibonacci_naive (m + 1 + int k)"
    using Suc.prems by (intro Suc.IH) simp
  also have "m + 1 + int k = m + int (Suc k)" by simp
  finally show ?case .
qed

lemma naive_closed: "0 \<le> n \<Longrightarrow> fibonacci_naive n = closed_form n"
  using loop_shift [of 0 "nat n"]
  by (simp add: closed_form_def fibonacci_naive.simps [of 0] fibonacci_naive.simps [of 1])

lemma naive_run: "fibonacci_naive_run n = Some (fibonacci_naive n)"
proof (induction n rule: fibonacci_naive.induct)
  case (1 n)
  show ?case
  proof (cases "n \<le> 1")
    case True
    then show ?thesis
      by (simp add: fibonacci_naive_run.simps [of n] fibonacci_naive.simps [of n])
  next
    case False
    with 1 show ?thesis
      by (simp add: fibonacci_naive_run.simps [of n] fibonacci_naive.simps [of n])
  qed
qed

lemma plain_run: "fibonacci_run n = Some (fibonacci n)"
proof (induction n rule: fibonacci.induct)
  case (1 n)
  show ?case
  proof (cases "n \<le> 1")
    case True
    then show ?thesis
      by (simp add: fibonacci_run.simps [of n] fibonacci.simps [of n])
  next
    case False
    with 1 show ?thesis
      by (simp add: fibonacci_run.simps [of n] fibonacci.simps [of n])
  qed
qed

section \<open>The cache: auxiliary facts\<close>

text \<open>
  A call of the wrapper with argument \<open>n\<close> keeps every entry it finds and writes at
  keys up to \<open>n\<close> only.
\<close>

lemma memo_frame:
  "(c k = Some v \<longrightarrow> snd (fibonacci_memo n c) k = Some v) \<and>
   (n < k \<longrightarrow> snd (fibonacci_memo n c) k = c k)"
proof (induction n c arbitrary: k v rule: fibonacci_memo.induct)
  case (1 n c)
  show ?case
  proof (cases "c n")
    case (Some w)
    then show ?thesis by (simp add: fibonacci_memo.simps [of n c])
  next
    case None
    show ?thesis
    proof (cases "n \<le> 1")
      case True
      with None show ?thesis by (auto simp add: fibonacci_memo.simps [of n c])
    next
      case False
      obtain a c1 where r1: "fibonacci_memo (n - 1) c = (a, c1)"
        by (cases "fibonacci_memo (n - 1) c")
      obtain b c2 where r2: "fibonacci_memo (n - 2) c1 = (b, c2)"
        by (cases "fibonacci_memo (n - 2) c1")
      have ih1: "\<And>k v. (c k = Some v \<longrightarrow> c1 k = Some v) \<and> (n - 1 < k \<longrightarrow> c1 k = c k)"
        using "1.IH"(1) [OF None False] r1 by simp
      have ih2: "\<And>k v. (c1 k = Some v \<longrightarrow> c2 k = Some v) \<and> (n - 2 < k \<longrightarrow> c2 k = c1 k)"
        using "1.IH"(2) [OF None False r1 [symmetric]] r2 by simp
      have res: "snd (fibonacci_memo n c) = c2(n \<mapsto> a + b)"
        using None False r1 r2 by (simp add: fibonacci_memo.simps [of n c])
      show ?thesis
      proof (intro conjI impI)
        assume hit: "c k = Some v"
        then have "k \<noteq> n" using None by auto
        then show "snd (fibonacci_memo n c) k = Some v"
          using res ih1 ih2 hit by simp
      next
        assume "n < k"
        then show "snd (fibonacci_memo n c) k = c k"
          using res ih1 [of k] ih2 [of k] by simp
      qed
    qed
  qed
qed

lemma memo_correct:
  "cache_ok c \<Longrightarrow>
   fst (fibonacci_memo n c) = fibonacci_naive n \<and> cache_ok (snd (fibonacci_memo n c))"
proof (induction n c rule: fibonacci_memo.induct)
  case (1 n c)
  show ?case
  proof (cases "c n")
    case (Some w)
    then show ?thesis
      using "1.prems" by (simp add: fibonacci_memo.simps [of n c] cache_ok_def)
  next
    case None
    show ?thesis
    proof (cases "n \<le> 1")
      case True
      with None "1.prems" show ?thesis
        by (simp add: fibonacci_memo.simps [of n c] fibonacci_naive.simps [of n] cache_ok_def)
    next
      case False
      obtain a c1 where r1: "fibonacci_memo (n - 1) c = (a, c1)"
        by (cases "fibonacci_memo (n - 1) c")
      obtain b c2 where r2: "fibonacci_memo (n - 2) c1 = (b, c2)"
        by (cases "fibonacci_memo (n - 2) c1")
      have ih1: "a = fibonacci_naive (n - 1) \<and> cache_ok c1"
        using "1.IH"(1) [OF None False "1.prems"] r1 by simp
      then have ih2: "b = fibonacci_naive (n - 2) \<and> cache_ok c2"
        using "1.IH"(2) [OF None False r1 [symmetric]] r2 by simp
      have res: "fibonacci_memo n c = (a + b, c2(n \<mapsto> a + b))"
        using None False r1 r2 by (simp add: fibonacci_memo.simps [of n c])
      have "a + b = fibonacci_naive n"
        using ih1 ih2 False by (simp add: fibonacci_naive.simps [of n])
      then show ?thesis using res ih2 by (simp add: cache_ok_def)
    qed
  qed
qed

lemma memo_stored: "snd (fibonacci_memo n c) n = Some (fst (fibonacci_memo n c))"
  by (cases "c n"; cases "n \<le> 1"; simp add: fibonacci_memo.simps [of n c] split: prod.splits)

lemma memo_twice:
  "fst (fibonacci_memo n (snd (fibonacci_memo n c))) = fst (fibonacci_memo n c)"
  using memo_stored [of n c]
  by (simp add: fibonacci_memo.simps [of n "snd (fibonacci_memo n c)"])

section \<open>The executors: auxiliary facts\<close>

lemma first_error_or_values_Inr: "first_error_or_values (map (\<lambda>x. Inr (g x)) xs) = Inr (map g xs)"
  by (induction xs) simp_all

lemma call_specD:
  assumes "call_spec I f fn" and "I s" and "fn i a s = (r, s')"
  shows "r = f a" and "I s'"
proof -
  from assms(1,2) have "fst (fn i a s) = f a \<and> I (snd (fn i a s))"
    unfolding call_spec_def by blast
  with assms(3) show "r = f a" and "I s'" by simp_all
qed

lemma run_calls_spec:
  assumes "call_spec I f fn"
  shows "I s \<Longrightarrow> (\<forall>i r. futures i = Some r \<longrightarrow> i < length args \<and> r = f (args ! i)) \<Longrightarrow>
         I (snd (run_calls fn args order futures s)) \<and>
         (\<forall>i r. fst (run_calls fn args order futures s) i = Some r \<longrightarrow> i < length args \<and> r = f (args ! i))"
proof (induction order arbitrary: futures s)
  case Nil
  then show ?case by simp
next
  case (Cons i order)
  show ?case
  proof (cases "i < length args \<and> futures i = None")
    case False
    then have skip: "run_calls fn args (i # order) futures s = run_calls fn args order futures s"
      by auto
    from Cons.IH [OF Cons.prems] show ?thesis unfolding skip .
  next
    case True
    obtain r s' where c: "fn i (args ! i) s = (r, s')" by (cases "fn i (args ! i) s")
    have rs: "r = f (args ! i)" "I s'"
      using call_specD [OF assms Cons.prems(1) c] by simp_all
    have eq: "run_calls fn args (i # order) futures s = run_calls fn args order (futures(i \<mapsto> r)) s'"
      using True c by simp
    have "\<forall>j q. (futures(i \<mapsto> r)) j = Some q \<longrightarrow> j < length args \<and> q = f (args ! j)"
      using Cons.prems(2) True rs by auto
    from Cons.IH [OF rs(2) this] show ?thesis unfolding eq .
  qed
qed

lemma results_spec:
  assumes "call_spec I f fn"
  shows "I s \<Longrightarrow> (\<forall>(i, a) \<in> set ias. \<forall>r. futures i = Some r \<longrightarrow> r = f a) \<Longrightarrow>
         fst (results fn ias futures s) = first_error_or_values (map (\<lambda>(i, a). f a) ias) \<and>
         I (snd (results fn ias futures s))"
proof (induction ias arbitrary: s)
  case Nil
  then show ?case by simp
next
  case (Cons ia ias)
  obtain i a where ia: "ia = (i, a)" by (cases ia)
  obtain r s' where p: "(case futures i of Some r \<Rightarrow> (r, s) | None \<Rightarrow> fn i a s) = (r, s')"
    by (cases "case futures i of Some r \<Rightarrow> (r, s) | None \<Rightarrow> fn i a s")
  have r: "r = f a" and s': "I s'"
  proof -
    show "r = f a"
    proof (cases "futures i")
      case None
      then have "fn i a s = (r, s')" using p by simp
      then show ?thesis using call_specD(1) [OF assms Cons.prems(1)] by simp
    next
      case (Some q)
      then have "q = r" using p by simp
      then show ?thesis using Cons.prems(2) ia Some by simp
    qed
    show "I s'"
    proof (cases "futures i")
      case None
      then have "fn i a s = (r, s')" using p by simp
      then show ?thesis using call_specD(2) [OF assms Cons.prems(1)] by simp
    next
      case (Some q)
      then have "s' = s" using p by simp
      then show ?thesis using Cons.prems(1) by simp
    qed
  qed
  have rest: "\<forall>(i, a) \<in> set ias. \<forall>r. futures i = Some r \<longrightarrow> r = f a"
    using Cons.prems(2) by simp
  note ih = Cons.IH [OF s' rest]
  show ?case
  proof (cases "f a")
    case (Inl e)
    then have "results fn (ia # ias) futures s = (Inl e, s')"
      using p r ia by simp
    then show ?thesis using Inl ia s' by simp
  next
    case (Inr v)
    obtain q sq where q: "results fn ias futures s' = (q, sq)"
      by (cases "results fn ias futures s'")
    have unf: "results fn (ia # ias) futures s =
          (case q of Inl e \<Rightarrow> (Inl e, sq) | Inr vs \<Rightarrow> (Inr (v # vs), sq))"
      using p r ia Inr q by (simp split: sum.split)
    have fev: "first_error_or_values (map (\<lambda>(i, a). f a) (ia # ias)) =
          (case q of Inl e \<Rightarrow> Inl e | Inr vs \<Rightarrow> Inr (v # vs))"
      using ih q ia Inr by simp
    have Isq: "I sq" using ih q by simp
    show ?thesis
    proof (cases q)
      case (Inl e)
      show ?thesis unfolding unf fev Inl using Isq by simp
    next
      case (Inr vs)
      show ?thesis unfolding unf fev Inr using Isq by simp
    qed
  qed
qed

lemma executor_map_spec:
  assumes "call_spec I f fn" and "I s"
  shows "fst (executor_map fn order args s) = first_error_or_values (map f args) \<and>
         I (snd (executor_map fn order args s))"
proof -
  obtain futures s' where rc: "run_calls fn args order Map.empty s = (futures, s')"
    by (cases "run_calls fn args order Map.empty s")
  have a: "I s'" and b: "\<forall>i r. futures i = Some r \<longrightarrow> i < length args \<and> r = f (args ! i)"
    using run_calls_spec [OF assms(1), of s Map.empty args order] assms(2) rc by simp_all
  have c: "\<forall>(i, a) \<in> set (enumerate 0 args). \<forall>r. futures i = Some r \<longrightarrow> r = f a"
  proof (clarify)
    fix i a r
    assume mem: "(i, a) \<in> set (enumerate 0 args)" and fut: "futures i = Some r"
    from mem have "args ! i = a" by (simp add: in_set_enumerate_eq)
    with b fut show "r = f a" by blast
  qed
  have "map (\<lambda>(i, a). f a) (enumerate 0 args) = map (f \<circ> snd) (enumerate 0 args)"
    by (simp add: case_prod_beta comp_def)
  also have "\<dots> = map f (map snd (enumerate 0 args))"
    by (simp only: map_map)
  also have "\<dots> = map f args"
    by (simp only: map_snd_enumerate)
  finally have d: "map (\<lambda>(i, a). f a) (enumerate 0 args) = map f args" .
  show ?thesis
    using results_spec [OF assms(1) a c] rc d by (simp add: executor_map_def)
qed

section \<open>The strategies: auxiliary facts\<close>

lemma task_spec_thread: "task_spec I f task \<Longrightarrow> call_spec I f (thread_call task)"
  by (simp add: task_spec_def call_spec_def thread_call_def)

text \<open>
  A compute function whose exceptions all come back rebuilt never breaks the pool: each
  call of the process pool has the outcome of the compute function.
\<close>

lemma task_spec_process:
  assumes "task_spec I f task" and "\<forall>a e. f a = Inl e \<longrightarrow> sent_back e = Some e"
  shows "call_spec (\<lambda>(broken, cs). \<not> broken \<and> (\<forall>p. I (cs p))) f (process_call wk task)"
  unfolding call_spec_def
proof (intro allI impI)
  fix i :: nat and a and s :: "bool \<times> (nat \<Rightarrow> cache)"
  assume inv: "case s of (broken, cs) \<Rightarrow> \<not> broken \<and> (\<forall>p. I (cs p))"
  obtain broken cs where s: "s = (broken, cs)" by (cases s)
  from inv s have nb: "\<not> broken" and all: "\<forall>p. I (cs p)" by simp_all
  obtain r c' where t: "task a (cs (wk i)) = (r, c')" by (cases "task a (cs (wk i))")
  from all have "I (cs (wk i))" by blast
  with assms(1) have "fst (task a (cs (wk i))) = f a \<and> I (snd (task a (cs (wk i))))"
    unfolding task_spec_def by blast
  with t have r: "r = f a" and c': "I c'" by simp_all
  have keep: "\<forall>p. I ((cs(wk i := c')) p)" using all c' by simp
  show "fst (process_call wk task i a s) = f a \<and>
        (case snd (process_call wk task i a s) of (broken, cs) \<Rightarrow> \<not> broken \<and> (\<forall>p. I (cs p)))"
  proof (cases r)
    case (Inr v)
    then have "process_call wk task i a s = (Inr v, (False, cs(wk i := c')))"
      using s nb t by simp
    then show ?thesis using Inr r keep by simp
  next
    case (Inl e)
    then have "sent_back e = Some e" using assms(2) r by simp
    then have "process_call wk task i a s = (Inl e, (False, cs(wk i := c')))"
      using s nb t Inl by simp
    then show ?thesis using Inl r keep by simp
  qed
qed

lemma measure_time_fst:
  "fst (measure_time tm name func args w) =
   fst (func args (w\<lparr>clock_reads := Suc (clock_reads w)\<rparr>))"
  by (simp add: measure_time_def time_time_def Let_def split: prod.splits sum.splits)

lemma measure_time_raise:
  "isl (fst (func args (w\<lparr>clock_reads := Suc (clock_reads w)\<rparr>))) \<Longrightarrow>
   snd (measure_time tm name func args w) =
   snd (func args (w\<lparr>clock_reads := Suc (clock_reads w)\<rparr>))"
  by (auto simp add: measure_time_def time_time_def Let_def split: prod.splits sum.splits)

lemma measure_time_return:
  "\<not> isl (fst (func args (w\<lparr>clock_reads := Suc (clock_reads w)\<rparr>))) \<Longrightarrow>
   snd (measure_time tm name func args w) =
   (snd (func args (w\<lparr>clock_reads := Suc (clock_reads w)\<rparr>)))
     \<lparr>clock_reads := Suc (clock_reads (snd (func args (w\<lparr>clock_reads := Suc (clock_reads w)\<rparr>)))),
      stdout := stdout (snd (func args (w\<lparr>clock_reads := Suc (clock_reads w)\<rparr>))) @
        [(name, tm (clock_reads (snd (func args (w\<lparr>clock_reads := Suc (clock_reads w)\<rparr>))))
                - tm (clock_reads w))]\<rparr>"
  by (auto simp add: measure_time_def time_time_def Let_def split: prod.splits sum.splits)

lemma measure_time_cache:
  "memo_cache (snd (measure_time tm name func args w)) =
   memo_cache (snd (func args (w\<lparr>clock_reads := Suc (clock_reads w)\<rparr>)))"
  by (auto simp add: measure_time_def time_time_def Let_def split: prod.splits sum.splits)

lemma thread_pool_spec:
  assumes "task_spec I f task" and "I (memo_cache w)"
  shows "fst (thread_pool task h numbers w) = first_error_or_values (map f numbers)"
    and "I (memo_cache (snd (thread_pool task h numbers w)))"
proof -
  obtain r c' where e:
    "executor_map (thread_call task) (completion_order h) numbers (memo_cache w) = (r, c')"
    by (cases "executor_map (thread_call task) (completion_order h) numbers (memo_cache w)")
  note spec = executor_map_spec [where I = I and f = f and fn = "thread_call task"
      and s = "memo_cache w" and order = "completion_order h" and args = numbers]
  from spec [OF task_spec_thread [OF assms(1)] assms(2)] e
  show "fst (thread_pool task h numbers w) = first_error_or_values (map f numbers)"
    and "I (memo_cache (snd (thread_pool task h numbers w)))"
    by (simp_all add: thread_pool_def)
qed

lemma process_pool_spec:
  assumes "task_spec I f task" and "\<forall>a e. f a = Inl e \<longrightarrow> sent_back e = Some e"
    and "I (child_cache h)"
  shows "fst (process_pool task h numbers w) = first_error_or_values (map f numbers)"
    and "snd (process_pool task h numbers w) = w"
proof -
  obtain r pool where e:
    "executor_map (process_call (worker_of h) task) (completion_order h) numbers
       (False, \<lambda>p. child_cache h) = (r, pool)"
    by (cases "executor_map (process_call (worker_of h) task) (completion_order h) numbers
       (False, \<lambda>p. child_cache h)")
  have start: "(\<lambda>(broken, cs). \<not> broken \<and> (\<forall>p :: nat. I (cs p))) (False, \<lambda>p. child_cache h)"
    using assms(3) by simp
  note spec = executor_map_spec [where I = "\<lambda>(broken, cs). \<not> broken \<and> (\<forall>p :: nat. I (cs p))"
      and f = f and fn = "process_call (worker_of h) task" and s = "(False, \<lambda>p. child_cache h)"
      and order = "completion_order h" and args = numbers]
  from spec [OF task_spec_process [OF assms(1,2)] start] e
  show "fst (process_pool task h numbers w) = first_error_or_values (map f numbers)"
    by (simp add: process_pool_def)
  from e show "snd (process_pool task h numbers w) = w"
    by (simp add: process_pool_def)
qed

lemma timed_thread_pool:
  assumes "task_spec I f task" and "I (memo_cache w)"
  shows "fst (measure_time tm name (thread_pool task h) numbers w) =
         first_error_or_values (map f numbers)"
  using thread_pool_spec(1) [OF assms(1), of "w\<lparr>clock_reads := Suc (clock_reads w)\<rparr>" h numbers] assms(2)
  by (simp add: measure_time_fst)

lemma timed_process_pool:
  assumes "task_spec I f task" and "\<forall>a e. f a = Inl e \<longrightarrow> sent_back e = Some e"
    and "I (child_cache h)"
  shows "fst (measure_time tm name (process_pool task h) numbers w) =
         first_error_or_values (map f numbers)"
  using process_pool_spec(1) [OF assms] by (simp add: measure_time_fst)

lemma task_spec_fibonacci: "task_spec (\<lambda>c. True) (\<lambda>n. Inr (fibonacci n)) fibonacci_call"
  by (simp add: task_spec_def fibonacci_call_def)

lemma task_spec_naive: "task_spec (\<lambda>c. True) (\<lambda>n. Inr (fibonacci_naive n)) fibonacci_naive_call"
  by (simp add: task_spec_def fibonacci_naive_call_def)

lemma task_spec_memo: "task_spec cache_ok (\<lambda>n. Inr (fibonacci_naive n)) fibonacci_memo_call"
  unfolding task_spec_def
proof (intro allI impI)
  fix n c assume "cache_ok c"
  obtain v c' where r: "fibonacci_memo n c = (v, c')" by (cases "fibonacci_memo n c")
  from memo_correct [OF \<open>cache_ok c\<close>, of n] r
  show "fst (fibonacci_memo_call n c) = Inr (fibonacci_naive n) \<and> cache_ok (snd (fibonacci_memo_call n c))"
    by (simp add: fibonacci_memo_call_def)
qed

text \<open>An invariant of every call is an invariant of the whole batch, whatever the outcomes.\<close>

lemma run_calls_inv:
  assumes "\<forall>i a s. I s \<longrightarrow> I (snd (fn i a s))"
  shows "I s \<Longrightarrow> I (snd (run_calls fn args order futures s))"
proof (induction order arbitrary: futures s)
  case Nil
  then show ?case by simp
next
  case (Cons i order)
  show ?case
  proof (cases "i < length args \<and> futures i = None")
    case False
    then have skip: "run_calls fn args (i # order) futures s = run_calls fn args order futures s"
      by auto
    from Cons.IH [OF Cons.prems] show ?thesis unfolding skip .
  next
    case True
    obtain r s' where c: "fn i (args ! i) s = (r, s')" by (cases "fn i (args ! i) s")
    have "I (snd (fn i (args ! i) s))" using assms Cons.prems by blast
    then have s': "I s'" using c by simp
    have eq: "run_calls fn args (i # order) futures s = run_calls fn args order (futures(i \<mapsto> r)) s'"
      using True c by simp
    from Cons.IH [OF s'] show ?thesis unfolding eq .
  qed
qed

lemma results_inv:
  assumes "\<forall>i a s. I s \<longrightarrow> I (snd (fn i a s))"
  shows "I s \<Longrightarrow> I (snd (results fn ias futures s))"
proof (induction ias arbitrary: s)
  case Nil
  then show ?case by simp
next
  case (Cons ia ias)
  obtain i a where ia: "ia = (i, a)" by (cases ia)
  obtain r s' where p: "(case futures i of Some r \<Rightarrow> (r, s) | None \<Rightarrow> fn i a s) = (r, s')"
    by (cases "case futures i of Some r \<Rightarrow> (r, s) | None \<Rightarrow> fn i a s")
  have s': "I s'"
  proof (cases "futures i")
    case None
    then have "fn i a s = (r, s')" using p by simp
    moreover have "I (snd (fn i a s))" using assms Cons.prems by blast
    ultimately show ?thesis by simp
  next
    case (Some q)
    then have "s' = s" using p by simp
    then show ?thesis using Cons.prems by simp
  qed
  note ih = Cons.IH [OF s']
  show ?case
  proof (cases r)
    case (Inl e)
    then have "results fn (ia # ias) futures s = (Inl e, s')"
      using p ia by simp
    then show ?thesis using s' by simp
  next
    case (Inr v)
    obtain q sq where q: "results fn ias futures s' = (q, sq)"
      by (cases "results fn ias futures s'")
    have unf: "results fn (ia # ias) futures s =
          (case q of Inl e \<Rightarrow> (Inl e, sq) | Inr vs \<Rightarrow> (Inr (v # vs), sq))"
      using p ia Inr q by (simp split: sum.split)
    have Isq: "I sq" using ih q by simp
    show ?thesis unfolding unf using Isq by (cases q) simp_all
  qed
qed

lemma executor_map_inv:
  assumes "\<forall>i a s. I s \<longrightarrow> I (snd (fn i a s))" and "I s"
  shows "I (snd (executor_map fn order args s))"
proof -
  obtain futures s' where rc: "run_calls fn args order Map.empty s = (futures, s')"
    by (cases "run_calls fn args order Map.empty s")
  have "I (snd (run_calls fn args order Map.empty s))"
    using run_calls_inv [where I = I, OF assms(1) assms(2)] .
  then have "I s'" using rc by simp
  from results_inv [where I = I, OF assms(1) this]
  show ?thesis using rc by (simp add: executor_map_def)
qed

lemma memo_call_snd: "snd (fibonacci_memo_call n c) = snd (fibonacci_memo n c)"
  by (cases "fibonacci_memo n c") (simp add: fibonacci_memo_call_def)

lemma thread_pool_keeps:
  assumes "memo_cache w k = Some v"
  shows "memo_cache (snd (thread_pool fibonacci_memo_call h numbers w)) k = Some v"
proof -
  obtain r c' where e:
    "executor_map (thread_call fibonacci_memo_call) (completion_order h) numbers (memo_cache w) = (r, c')"
    by (cases "executor_map (thread_call fibonacci_memo_call) (completion_order h) numbers (memo_cache w)")
  have step: "\<forall>i a s. s k = Some v \<longrightarrow> snd (thread_call fibonacci_memo_call i a s) k = Some v"
  proof (intro allI impI)
    fix i :: nat and a s
    assume "s k = Some v"
    with memo_frame [of s k v a]
    show "snd (thread_call fibonacci_memo_call i a s) k = Some v"
      by (simp add: thread_call_def memo_call_snd)
  qed
  from executor_map_inv [where I = "\<lambda>c. c k = Some v" and fn = "thread_call fibonacci_memo_call"
      and s = "memo_cache w" and order = "completion_order h" and args = numbers, OF step assms] e
  show ?thesis by (simp add: thread_pool_def)
qed

text \<open>The named strategies, and two runs carried out step by step.\<close>

lemma plain_thread_result:
  "fst (multi_threaded_fibonacci h numbers w) = Inr (map fibonacci numbers)"
proof -
  have "fst (multi_threaded_fibonacci h numbers w) =
        first_error_or_values (map (\<lambda>n. Inr (fibonacci n)) numbers)"
    unfolding multi_threaded_fibonacci_def
    by (rule timed_thread_pool [OF task_spec_fibonacci]) simp
  then show ?thesis by (simp only: first_error_or_values_Inr)
qed

lemma plain_process_result:
  "fst (multi_process_fibonacci h numbers w) = Inr (map fibonacci numbers)"
proof -
  have "fst (multi_process_fibonacci h numbers w) =
        first_error_or_values (map (\<lambda>n. Inr (fibonacci n)) numbers)"
    unfolding multi_process_fibonacci_def
    by (rule timed_process_pool [OF task_spec_fibonacci]) simp_all
  then show ?thesis by (simp only: first_error_or_values_Inr)
qed

lemma naive_thread_result:
  "fst (multi_threaded_fibonacci_naive h numbers w) = Inr (map fibonacci_naive numbers)"
proof -
  have "fst (multi_threaded_fibonacci_naive h numbers w) =
        first_error_or_values (map (\<lambda>n. Inr (fibonacci_naive n)) numbers)"
    unfolding multi_threaded_fibonacci_naive_def
    by (rule timed_thread_pool [OF task_spec_naive]) simp
  then show ?thesis by (simp only: first_error_or_values_Inr)
qed

lemma naive_process_result:
  "fst (multi_process_fibonacci_naive h numbers w) = Inr (map fibonacci_naive numbers)"
proof -
  have "fst (multi_process_fibonacci_naive h numbers w) =
        first_error_or_values (map (\<lambda>n. Inr (fibonacci_naive n)) numbers)"
    unfolding multi_process_fibonacci_naive_def
    by (rule timed_process_pool [OF task_spec_naive]) simp_all
  then show ?thesis by (simp only: first_error_or_values_Inr)
qed

lemma plain_base: "n \<le> 1 \<Longrightarrow> fibonacci n = n"
  unfolding fibonacci_eq_naive by (rule naive_base)

lemma task_spec_injected: "task_spec (\<lambda>c. True) injected_failure injected_failure_call"
  by (simp add: task_spec_def injected_failure_call_def)

lemma injected_thread_result:
  "fst (multi_threaded_fibonacci_naive_injected h numbers w) =
   first_error_or_values (map injected_failure numbers)"
  unfolding multi_threaded_fibonacci_naive_injected_def
  by (rule timed_thread_pool [OF task_spec_injected]) simp

lemma injected_values:
  "injected_failure 999999 = Inl (Exception ''injected failure'')"
  "injected_failure 5 = Inr 5"
  "injected_failure 7 = Inr 13"
  by (simp_all add: injected_failure_def) code_simp+

lemma injected_raises: "injected_failure 999999 = Inl (Exception ''injected failure'')"
  by (simp add: injected_failure_def)

lemma naive_pool_3:
  "thread_pool fibonacci_naive_call example_host [3] (initial_world\<lparr>clock_reads := Suc (clock_reads initial_world)\<rparr>)
   = (Inr [2], \<lparr>clock_reads = 1, stdout = [], memo_cache = Map.empty\<rparr>)"
proof -
  have v: "fibonacci_naive 3 = 2" by code_simp
  show ?thesis
    by (simp add: thread_pool_def executor_map_def thread_call_def fibonacci_naive_call_def
      example_host_def initial_world_def enumerate_eq_zip v)
qed

lemma injected_pool:
  "thread_pool injected_failure_call example_host [999999] (initial_world\<lparr>clock_reads := Suc (clock_reads initial_world)\<rparr>)
   = (Inl (Exception ''injected failure''), \<lparr>clock_reads = 1, stdout = [], memo_cache = Map.empty\<rparr>)"
  by (simp add: thread_pool_def executor_map_def thread_call_def injected_failure_call_def
      injected_raises example_host_def initial_world_def enumerate_eq_zip)

lemma ten: "fibonacci_naive 10 = 55"
  by code_simp

text \<open>
  The compute function under the recursion limit: with room for the whole recursion
  it is \<^verbatim>\<open>fibonacci_naive\<close>, and the only error it raises is \<^verbatim>\<open>RecursionError\<close>.
\<close>

lemma guarded_eq:
  "fibonacci_naive_guarded d n =
   (if max 1 (nat n) \<le> d then Inr (fibonacci_naive n) else Inl RecursionError)"
proof (induction d arbitrary: n)
  case 0
  then show ?case by simp
next
  case (Suc d)
  show ?case
  proof (cases "n \<le> 1")
    case True
    then show ?thesis by (simp add: naive_base)
  next
    case False
    then have two: "2 \<le> n" by simp
    have a: "max 1 (nat (n - 1)) \<le> d \<longleftrightarrow> nat n \<le> Suc d" using two by auto
    show ?thesis
    proof (cases "nat n \<le> Suc d")
      case True
      then have "max 1 (nat (n - 1)) \<le> d" and "max 1 (nat (n - 2)) \<le> d"
        using two by auto
      then have "fibonacci_naive_guarded d (n - 1) = Inr (fibonacci_naive (n - 1))"
        and "fibonacci_naive_guarded d (n - 2) = Inr (fibonacci_naive (n - 2))"
        using Suc.IH by simp_all
      then show ?thesis using False True two by (simp add: naive_rec)
    next
      case no: False
      then have "\<not> max 1 (nat (n - 1)) \<le> d" using a by simp
      then have "fibonacci_naive_guarded d (n - 1) = Inl RecursionError"
        using Suc.IH by simp
      then show ?thesis using False no two by simp
    qed
  qed
qed

lemma guarded_error: "fibonacci_naive_guarded d n = Inl e \<Longrightarrow> e = RecursionError"
  by (simp add: guarded_eq split: if_splits)

lemma task_spec_guarded:
  "task_spec (\<lambda>c. True) (fibonacci_naive_guarded d) (fibonacci_naive_guarded_call d)"
  by (simp add: task_spec_def fibonacci_naive_guarded_call_def)

lemma guarded_sent_back:
  "\<forall>a e. fibonacci_naive_guarded d a = Inl e \<longrightarrow> sent_back e = Some e"
proof (intro allI impI)
  fix a e assume "fibonacci_naive_guarded d a = Inl e"
  then have "e = RecursionError" by (rule guarded_error)
  then show "sent_back e = Some e" by simp
qed

lemma guarded_thread_result:
  "fst (multi_threaded_fibonacci_naive_guarded d h numbers w) =
   first_error_or_values (map (fibonacci_naive_guarded d) numbers)"
  unfolding multi_threaded_fibonacci_naive_guarded_def
  by (rule timed_thread_pool [OF task_spec_guarded]) simp

lemma guarded_process_result:
  "fst (multi_process_fibonacci_naive_guarded d h numbers w) =
   first_error_or_values (map (fibonacci_naive_guarded d) numbers)"
  unfolding multi_process_fibonacci_naive_guarded_def
  by (rule timed_process_pool [OF task_spec_guarded guarded_sent_back]) simp

lemma guarded_values:
  "fibonacci_naive_guarded 1000 999999 = Inl RecursionError"
  "fibonacci_naive_guarded 1000 5 = Inr 5"
  "fibonacci_naive_guarded 1000 7 = Inr 13"
proof -
  have v: "fibonacci_naive 5 = 5" "fibonacci_naive 7 = 13" by code_simp+
  show "fibonacci_naive_guarded 1000 999999 = Inl RecursionError"
    "fibonacci_naive_guarded 1000 5 = Inr 5"
    "fibonacci_naive_guarded 1000 7 = Inr 13"
    by (simp_all add: guarded_eq v)
qed

text \<open>A call that raises whenever it is carried out makes the whole batch raise.\<close>

lemma run_calls_fails:
  assumes "\<forall>s. isl (fst (fn k (args ! k) s))"
  shows "(\<forall>r. futures k = Some r \<longrightarrow> isl r) \<Longrightarrow>
         (\<forall>r. fst (run_calls fn args order futures s) k = Some r \<longrightarrow> isl r)"
proof (induction order arbitrary: futures s)
  case Nil
  then show ?case by simp
next
  case (Cons i order)
  show ?case
  proof (cases "i < length args \<and> futures i = None")
    case False
    then have skip: "run_calls fn args (i # order) futures s = run_calls fn args order futures s"
      by auto
    from Cons.IH [of futures s, OF Cons.prems] show ?thesis unfolding skip .
  next
    case True
    obtain r s' where c: "fn i (args ! i) s = (r, s')" by (cases "fn i (args ! i) s")
    have eq: "run_calls fn args (i # order) futures s = run_calls fn args order (futures(i \<mapsto> r)) s'"
      using True c by simp
    have "\<forall>q. (futures(i \<mapsto> r)) k = Some q \<longrightarrow> isl q"
    proof (cases "i = k")
      case True
      have "isl (fst (fn k (args ! k) s))" using assms by blast
      then have "isl r" using c True by simp
      then show ?thesis using True by simp
    next
      case False
      then show ?thesis using Cons.prems by simp
    qed
    from Cons.IH [of "futures(i \<mapsto> r)" s', OF this] show ?thesis unfolding eq .
  qed
qed

lemma results_fails:
  assumes "\<forall>s. isl (fst (fn k a s))" and "\<forall>r. futures k = Some r \<longrightarrow> isl r"
  shows "(k, a) \<in> set ias \<Longrightarrow> isl (fst (results fn ias futures s))"
proof (induction ias arbitrary: s)
  case Nil
  then show ?case by simp
next
  case (Cons ib ias)
  obtain i b where ib: "ib = (i, b)" by (cases ib)
  obtain r s' where p: "(case futures i of Some r \<Rightarrow> (r, s) | None \<Rightarrow> fn i b s) = (r, s')"
    by (cases "case futures i of Some r \<Rightarrow> (r, s) | None \<Rightarrow> fn i b s")
  show ?case
  proof (cases r)
    case (Inl e)
    then have "results fn (ib # ias) futures s = (Inl e, s')"
      using p ib by simp
    then show ?thesis by simp
  next
    case (Inr v)
    have "(i, b) \<noteq> (k, a)"
    proof
      assume same: "(i, b) = (k, a)"
      have "isl r"
      proof (cases "futures i")
        case None
        then have "fn k a s = (r, s')" using p same by simp
        moreover have "isl (fst (fn k a s))" using assms(1) by blast
        ultimately show ?thesis by simp
      next
        case (Some q)
        then have "q = r" using p by simp
        then show ?thesis using assms(2) Some same by simp
      qed
      then show False using Inr by simp
    qed
    then have "(k, a) \<in> set ias" using Cons.prems ib by auto
    from Cons.IH [of s', OF this] have ih: "isl (fst (results fn ias futures s'))" .
    obtain q sq where q: "results fn ias futures s' = (q, sq)"
      by (cases "results fn ias futures s'")
    then obtain e where qe: "q = Inl e" using ih by (cases q) simp_all
    have "results fn (ib # ias) futures s = (Inl e, sq)"
      using p ib Inr q qe by simp
    then show ?thesis by simp
  qed
qed

lemma executor_map_fails:
  assumes "\<forall>s. isl (fst (fn k (args ! k) s))" and "k < length args"
  shows "isl (fst (executor_map fn order args s))"
proof -
  obtain futures s' where rc: "run_calls fn args order Map.empty s = (futures, s')"
    by (cases "run_calls fn args order Map.empty s")
  have "\<forall>r. fst (run_calls fn args order Map.empty s) k = Some r \<longrightarrow> isl r"
    using run_calls_fails [where fn = fn and k = k and args = args and futures = Map.empty
        and order = order and s = s, OF assms(1)] by simp
  then have fut: "\<forall>r. futures k = Some r \<longrightarrow> isl r" using rc by simp
  have mem: "(k, args ! k) \<in> set (enumerate 0 args)"
    using assms(2) by (simp add: in_set_enumerate_eq)
  from results_fails [where fn = fn and k = k and a = "args ! k" and futures = futures
      and ias = "enumerate 0 args" and s = s', OF assms(1) fut mem]
  show ?thesis using rc by (simp add: executor_map_def)
qed

lemma process_call_fails:
  assumes "\<forall>c. isl (fst (task a c))"
  shows "isl (fst (process_call wk task i a s))"
proof -
  obtain broken cs where s: "s = (broken, cs)" by (cases s)
  obtain r c' where t: "task a (cs (wk i)) = (r, c')" by (cases "task a (cs (wk i))")
  have "isl (fst (task a (cs (wk i))))" using assms by blast
  then obtain e where r: "r = Inl e" using t by (cases r) simp_all
  show ?thesis
    using s t r by (cases broken; cases "sent_back e") simp_all
qed

lemma thread_pool_fails:
  assumes "n \<in> set numbers" and "\<forall>c. isl (fst (task n c))"
  shows "isl (fst (thread_pool task h numbers w))"
proof -
  from assms(1) obtain k where k: "k < length numbers" "numbers ! k = n"
    by (auto simp add: in_set_conv_nth)
  have "\<forall>s. isl (fst (thread_call task k (numbers ! k) s))"
    using assms(2) k by (simp add: thread_call_def)
  from executor_map_fails [where fn = "thread_call task" and k = k and args = numbers
      and order = "completion_order h" and s = "memo_cache w", OF this k(1)]
  have "isl (fst (executor_map (thread_call task) (completion_order h) numbers (memo_cache w)))" .
  then show ?thesis
    by (cases "executor_map (thread_call task) (completion_order h) numbers (memo_cache w)")
       (simp add: thread_pool_def)
qed

lemma process_pool_fails:
  assumes "n \<in> set numbers" and "\<forall>c. isl (fst (task n c))"
  shows "isl (fst (process_pool task h numbers w))"
proof -
  from assms(1) obtain k where k: "k < length numbers" "numbers ! k = n"
    by (auto simp add: in_set_conv_nth)
  have "\<forall>s. isl (fst (process_call (worker_of h) task k (numbers ! k) s))"
    using process_call_fails [of task n] assms(2) k by simp
  from executor_map_fails [where fn = "process_call (worker_of h) task" and k = k
      and args = numbers and order = "completion_order h"
      and s = "(False, \<lambda>p. child_cache h)", OF this k(1)]
  have "isl (fst (executor_map (process_call (worker_of h) task) (completion_order h) numbers
          (False, \<lambda>p. child_cache h)))" .
  then show ?thesis
    by (cases "executor_map (process_call (worker_of h) task) (completion_order h) numbers
          (False, \<lambda>p. child_cache h)")
       (simp add: process_pool_def)
qed

section \<open>The claims\<close>

text \<open>
  C1. For every input list and for each of the four strategies of
  concu_vs_parall_with_patters.py (thread pool and process pool, naive and memoized),
  the returned list is the element-wise Fibonacci value of the input list, in the order
  of the input: position \<open>i\<close> of the result is the value for position \<open>i\<close> of the
  input. This holds for every order in which the host completes the calls and for every
  assignment of calls to worker processes. The memoized variants start from a consistent
  cache, as every cache is that only \<^verbatim>\<open>fibonacci_memo\<close> has written to; on such a
  cache the value \<^verbatim>\<open>fibonacci_memo\<close> returns is that of \<^verbatim>\<open>fibonacci_naive\<close>.
\<close>

theorem strategies_results_in_input_order:
  assumes "cache_ok (memo_cache w)" and "cache_ok (child_cache h)"
  shows "fst (multi_threaded_fibonacci_naive h L w) = Inr (map fibonacci_naive L) \<and>
         fst (multi_process_fibonacci_naive h L w) = Inr (map fibonacci_naive L) \<and>
         fst (multi_threaded_fibonacci_memo h L w) = Inr (map fibonacci_naive L) \<and>
         fst (multi_process_fibonacci_memo h L w) = Inr (map fibonacci_naive L)"
proof (intro conjI)
  show "fst (multi_threaded_fibonacci_naive h L w) = Inr (map fibonacci_naive L)"
    unfolding multi_threaded_fibonacci_naive_def
    using timed_thread_pool [OF task_spec_naive] by (simp add: first_error_or_values_Inr)
  show "fst (multi_process_fibonacci_naive h L w) = Inr (map fibonacci_naive L)"
    by (rule naive_process_result)
  show "fst (multi_threaded_fibonacci_memo h L w) = Inr (map fibonacci_naive L)"
    unfolding multi_threaded_fibonacci_memo_def
    using timed_thread_pool [OF task_spec_memo assms(1)] by (simp add: first_error_or_values_Inr)
  have "fst (multi_process_fibonacci_memo h L w) =
        first_error_or_values (map (\<lambda>n. Inr (fibonacci_naive n)) L)"
    unfolding multi_process_fibonacci_memo_def
    by (rule timed_process_pool [OF task_spec_memo]) (simp_all add: assms(2))
  then show "fst (multi_process_fibonacci_memo h L w) = Inr (map fibonacci_naive L)"
    by (simp only: first_error_or_values_Inr)
qed

text \<open>The statement at the list 3, 0, 5 on a fresh interpreter.\<close>

theorem strategies_results_in_input_order_witness:
  "cache_ok (memo_cache initial_world) \<and> cache_ok (child_cache example_host) \<and>
   fst (multi_threaded_fibonacci_naive example_host [3, 0, 5] initial_world) = Inr [2, 0, 5] \<and>
   fst (multi_process_fibonacci_naive example_host [3, 0, 5] initial_world) = Inr [2, 0, 5] \<and>
   fst (multi_threaded_fibonacci_memo example_host [3, 0, 5] initial_world) = Inr [2, 0, 5] \<and>
   fst (multi_process_fibonacci_memo example_host [3, 0, 5] initial_world) = Inr [2, 0, 5]"
proof -
  have a: "cache_ok (memo_cache initial_world)"
    by (simp add: initial_world_def cache_ok_def)
  have b: "cache_ok (child_cache example_host)"
    by (simp add: example_host_def cache_ok_def)
  have v: "map fibonacci_naive [3, 0, 5] = [2, 0, 5]" by code_simp
  show ?thesis
    using a b strategies_results_in_input_order [OF a b, of "[3, 0, 5]"] v by simp
qed

text \<open>
  C2. The naive compute function satisfies the Fibonacci recurrence: it is 0 at 0, 1 at 1
  and the sum of its two predecessors from 2 on; on every non-negative input, and so on
  0 to 30, it agrees with the iterative oracle; the thread-pool run on 0, 1, 2, 3, 4, 5
  returns 0, 1, 1, 2, 3, 5. The same holds of \<^verbatim>\<open>fibonacci\<close> in concu_vs_parall.py.
\<close>

theorem fibonacci_naive_recurrence:
  "fibonacci_naive 0 = 0 \<and> fibonacci_naive 1 = 1 \<and>
   (\<forall>n\<ge>2. fibonacci_naive n = fibonacci_naive (n - 1) + fibonacci_naive (n - 2)) \<and>
   (\<forall>n\<ge>0. fibonacci_naive n = closed_form n) \<and>
   fibonacci 0 = 0 \<and> fibonacci 1 = 1 \<and>
   (\<forall>n\<ge>2. fibonacci n = fibonacci (n - 1) + fibonacci (n - 2)) \<and>
   (\<forall>n\<ge>0. fibonacci n = closed_form n) \<and>
   fst (multi_threaded_fibonacci_naive h [0, 1, 2, 3, 4, 5] w) = Inr [0, 1, 1, 2, 3, 5]"
proof (intro conjI allI impI)
  show "fibonacci_naive 0 = 0" by (rule naive_base) simp
  show "fibonacci_naive 1 = 1" by (rule naive_base) simp
  show "fibonacci 0 = 0" unfolding fibonacci_eq_naive by (rule naive_base) simp
  show "fibonacci 1 = 1" unfolding fibonacci_eq_naive by (rule naive_base) simp
  show "fibonacci_naive n = fibonacci_naive (n - 1) + fibonacci_naive (n - 2)" if "2 \<le> n" for n
    using that by (rule naive_rec)
  show "fibonacci n = fibonacci (n - 1) + fibonacci (n - 2)" if "2 \<le> n" for n
    unfolding fibonacci_eq_naive using that by (rule naive_rec)
  show "fibonacci_naive n = closed_form n" if "0 \<le> n" for n
    using that by (rule naive_closed)
  show "fibonacci n = closed_form n" if "0 \<le> n" for n
    unfolding fibonacci_eq_naive using that by (rule naive_closed)
  have v: "map fibonacci_naive [0, 1, 2, 3, 4, 5] = [0, 1, 1, 2, 3, 5]" by code_simp
  have "fst (multi_threaded_fibonacci_naive h [0, 1, 2, 3, 4, 5] w) =
        first_error_or_values (map (\<lambda>n. Inr (fibonacci_naive n)) [0, 1, 2, 3, 4, 5])"
    unfolding multi_threaded_fibonacci_naive_def
    by (rule timed_thread_pool [OF task_spec_naive]) simp
  also have "\<dots> = Inr (map fibonacci_naive [0, 1, 2, 3, 4, 5])"
    by (rule first_error_or_values_Inr)
  finally show "fst (multi_threaded_fibonacci_naive h [0, 1, 2, 3, 4, 5] w) = Inr [0, 1, 1, 2, 3, 5]"
    unfolding v .
qed

text \<open>The recurrence at 7 and the agreement with the oracle at 30.\<close>

theorem fibonacci_naive_recurrence_witness:
  "(2::int) \<le> 7 \<and> fibonacci_naive 7 = fibonacci_naive (7 - 1) + fibonacci_naive (7 - 2) \<and>
   (0::int) \<le> 30 \<and> fibonacci_naive 30 = closed_form 30 \<and> closed_form 30 = 832040 \<and>
   fibonacci 7 = fibonacci (7 - 1) + fibonacci (7 - 2) \<and> fibonacci 30 = closed_form 30"
proof -
  note t = fibonacci_naive_recurrence [of example_host initial_world]
  have c: "closed_form 30 = 832040" by code_simp
  from t have r1: "(2::int) \<le> 7 \<longrightarrow> fibonacci_naive 7 = fibonacci_naive (7 - 1) + fibonacci_naive (7 - 2)"
    by blast
  from t have r2: "(0::int) \<le> 30 \<longrightarrow> fibonacci_naive 30 = closed_form 30"
    by blast
  from t have r3: "(2::int) \<le> 7 \<longrightarrow> fibonacci 7 = fibonacci (7 - 1) + fibonacci (7 - 2)"
    by blast
  from t have r4: "(0::int) \<le> 30 \<longrightarrow> fibonacci 30 = closed_form 30"
    by blast
  have h1: "(2::int) \<le> 7" and h2: "(0::int) \<le> 30" by simp_all
  from r1 r2 r3 r4 h1 h2 c show ?thesis by blast
qed

text \<open>
  C3. On every input, the memoized variant returns the value of the naive variant,
  whenever the cache it runs on is consistent, and it leaves the cache consistent. The
  empty cache of a fresh interpreter is consistent, so every cache met in a run is.
\<close>

theorem fibonacci_memo_equals_naive:
  assumes "cache_ok c"
  shows "fst (fibonacci_memo n c) = fibonacci_naive n \<and> cache_ok (snd (fibonacci_memo n c))"
  using memo_correct [OF assms] .

text \<open>The statement at 10 on the empty cache.\<close>

theorem fibonacci_memo_equals_naive_witness:
  "cache_ok Map.empty \<and> fst (fibonacci_memo 10 Map.empty) = fibonacci_naive 10 \<and>
   fibonacci_naive 10 = 55 \<and> cache_ok (snd (fibonacci_memo 10 Map.empty))"
proof -
  have e: "cache_ok Map.empty" by (simp add: cache_ok_def)
  have v: "fibonacci_naive 10 = 55" by code_simp
  show ?thesis using e v fibonacci_memo_equals_naive [OF e, of 10] by simp
qed

text \<open>
  C4. The claim: a run on a list that contains a negative integer is rejected with an
  InvalidInput error before any worker is dispatched. The strategies of
  concu_vs_parall.py validate nothing: on the list holding only -1, both return the list
  holding -1.
\<close>

theorem negative_input_not_rejected:
  "fst (multi_threaded_fibonacci example_host [- 1] initial_world) = Inr [- 1] \<and>
   fst (multi_process_fibonacci example_host [- 1] initial_world) = Inr [- 1]"
proof -
  have v: "map fibonacci [- 1] = [- 1]" by (simp add: plain_base)
  show ?thesis
    using plain_thread_result [of example_host "[- 1]" initial_world]
      plain_process_result [of example_host "[- 1]" initial_world]
    unfolding v by simp
qed

text \<open>
  C4, as the code has it. For every input list, with or without negative integers, no
  run is rejected: there is no validation before dispatch, every task is computed, and
  both strategies return the list of \<^verbatim>\<open>fibonacci\<close> values in input order, where
  every negative input yields itself.
\<close>

theorem negative_input_computed_as_is:
  "fst (multi_threaded_fibonacci h numbers w) = Inr (map fibonacci numbers) \<and>
   fst (multi_process_fibonacci h numbers w) = Inr (map fibonacci numbers) \<and>
   (\<forall>n<0. fibonacci n = n)"
proof (intro conjI allI impI)
  show "fst (multi_threaded_fibonacci h numbers w) = Inr (map fibonacci numbers)"
    by (rule plain_thread_result)
  show "fst (multi_process_fibonacci h numbers w) = Inr (map fibonacci numbers)"
    by (rule plain_process_result)
  show "fibonacci n = n" if "n < 0" for n
    using that by (intro plain_base) simp
qed

text \<open>The statement at the list -4, 6.\<close>

theorem negative_input_computed_as_is_witness:
  "(- 4 :: int) < 0 \<and> fibonacci (- 4) = - 4 \<and> map fibonacci [- 4, 6] = [- 4, 8] \<and>
   fst (multi_threaded_fibonacci example_host [- 4, 6] initial_world) = Inr [- 4, 8] \<and>
   fst (multi_process_fibonacci example_host [- 4, 6] initial_world) = Inr [- 4, 8]"
proof -
  note t = negative_input_computed_as_is [of example_host "[- 4, 6]" initial_world]
  have v: "map fibonacci [- 4, 6] = [- 4, 8]" by code_simp
  have n: "(- 4 :: int) < 0" by simp
  from t have "(- 4 :: int) < 0 \<longrightarrow> fibonacci (- 4) = - 4" by blast
  with n have f: "fibonacci (- 4) = - 4" by blast
  from t v n f show ?thesis by simp
qed

text \<open>
  C5. The claim: when a worker's computation raises, the propagated failure identifies
  the failing task's input value and its index. Under a recursion limit that allows
  1000 nested calls, the worker computing 999999 raises \<^verbatim>\<open>RecursionError\<close>; the run
  on 5, 999999, 7 and the run on 999999, 5, 7 then propagate one and the same failure,
  in the thread pool and in the process pool, although the failing task has index 1 in
  the first and index 0 in the second. The same holds with the harness of scenario 4 in
  place of \<^verbatim>\<open>fibonacci_naive\<close> in the thread pool.
\<close>

theorem worker_failure_carries_no_index:
  "fst (multi_threaded_fibonacci_naive_guarded 1000 example_host [5, 999999, 7] initial_world) =
     Inl RecursionError \<and>
   fst (multi_threaded_fibonacci_naive_guarded 1000 example_host [999999, 5, 7] initial_world) =
     Inl RecursionError \<and>
   fst (multi_process_fibonacci_naive_guarded 1000 example_host [5, 999999, 7] initial_world) =
     Inl RecursionError \<and>
   fst (multi_process_fibonacci_naive_guarded 1000 example_host [999999, 5, 7] initial_world) =
     Inl RecursionError \<and>
   fst (multi_threaded_fibonacci_naive_injected example_host [5, 999999, 7] initial_world) =
     Inl (Exception ''injected failure'') \<and>
   fst (multi_threaded_fibonacci_naive_injected example_host [999999, 5, 7] initial_world) =
     Inl (Exception ''injected failure'')"
  by (simp add: guarded_thread_result guarded_process_result guarded_values
      injected_thread_result injected_values)

text \<open>
  C5, as the code has it. If the computation of any task of the list raises an error,
  the strategy invocation fails as a whole, in the thread pool and in the process pool:
  it raises instead of returning, so there is no result list, hence nothing for the
  other indices, no value put in place of the failed one and no list with the failed
  slot left out. This holds for every compute function, every order of completion and
  every assignment to workers. What the failure tells about the failing task's input
  value or index is left open.
\<close>

theorem worker_failure_fails_whole_run:
  assumes "n \<in> set numbers" and "\<forall>c. isl (fst (task n c))"
  shows "isl (fst (measure_time tm name (thread_pool task h) numbers w)) \<and>
         isl (fst (measure_time tm name (process_pool task h) numbers w))"
  using thread_pool_fails [where n = n and numbers = numbers and task = task and h = h
      and w = "w\<lparr>clock_reads := Suc (clock_reads w)\<rparr>", OF assms]
    process_pool_fails [where n = n and numbers = numbers and task = task and h = h
      and w = "w\<lparr>clock_reads := Suc (clock_reads w)\<rparr>", OF assms]
  by (simp add: measure_time_fst)

text \<open>
  The statement at \<^verbatim>\<open>fibonacci_naive\<close> under a recursion limit that allows 1000
  nested calls, on the list 5, 999999, 7, where the computation of 999999 raises.
\<close>

theorem worker_failure_fails_whole_run_witness:
  "(999999 :: int) \<in> set [5, 999999, 7] \<and>
   (\<forall>c. isl (fst (fibonacci_naive_guarded_call 1000 999999 c))) \<and>
   isl (fst (multi_threaded_fibonacci_naive_guarded 1000 example_host [5, 999999, 7] initial_world)) \<and>
   isl (fst (multi_process_fibonacci_naive_guarded 1000 example_host [5, 999999, 7] initial_world))"
proof -
  have a: "(999999 :: int) \<in> set [5, 999999, 7]" by simp
  have b: "\<forall>c. isl (fst (fibonacci_naive_guarded_call 1000 999999 c))"
    by (simp add: fibonacci_naive_guarded_call_def guarded_values)
  from worker_failure_fails_whole_run [where n = 999999 and numbers = "[5, 999999, 7]"
      and task = "fibonacci_naive_guarded_call 1000", OF a b] a b show ?thesis
    unfolding multi_threaded_fibonacci_naive_guarded_def multi_process_fibonacci_naive_guarded_def
    by blast
qed

text \<open>
  C6. The claim: \<^verbatim>\<open>measure_time\<close> records a second timestamp and reports the
  difference on propagated failure as on success. On the failing run of the harness on
  999999 the clock has been read once, not twice, and nothing has been printed.
\<close>

theorem measure_time_failure_unreported:
  "fst (multi_threaded_fibonacci_naive_injected example_host [999999] initial_world) =
     Inl (Exception ''injected failure'') \<and>
   clock_reads (snd (multi_threaded_fibonacci_naive_injected example_host [999999] initial_world)) = 1 \<and>
   stdout (snd (multi_threaded_fibonacci_naive_injected example_host [999999] initial_world)) = []"
  by (simp add: multi_threaded_fibonacci_naive_injected_def measure_time_def time_time_def
      thread_pool_def executor_map_def thread_call_def injected_failure_call_def
      injected_raises example_host_def initial_world_def enumerate_eq_zip)

text \<open>
  C6, as the code has it. \<^verbatim>\<open>measure_time\<close> returns exactly the value the wrapped
  function returns and raises exactly the error it raises. It reads
  \<^verbatim>\<open>time.time()\<close> once immediately before the call. When the call returns, it reads
  it once more immediately after and prints the difference of the two readings, and
  nothing else. When the call raises, the error leaves the wrapper at once: there is no
  second reading and nothing is printed. The readings are whatever \<^verbatim>\<open>time.time()\<close>
  gives; nothing is said on their being monotonic.
\<close>

theorem measure_time_transparent:
  "fst (measure_time tm name func args w) =
     fst (func args (w\<lparr>clock_reads := Suc (clock_reads w)\<rparr>)) \<and>
   (isl (fst (func args (w\<lparr>clock_reads := Suc (clock_reads w)\<rparr>))) \<longrightarrow>
      snd (measure_time tm name func args w) =
        snd (func args (w\<lparr>clock_reads := Suc (clock_reads w)\<rparr>))) \<and>
   (\<not> isl (fst (func args (w\<lparr>clock_reads := Suc (clock_reads w)\<rparr>))) \<longrightarrow>
      snd (measure_time tm name func args w) =
        (snd (func args (w\<lparr>clock_reads := Suc (clock_reads w)\<rparr>)))
          \<lparr>clock_reads :=
             Suc (clock_reads (snd (func args (w\<lparr>clock_reads := Suc (clock_reads w)\<rparr>)))),
           stdout :=
             stdout (snd (func args (w\<lparr>clock_reads := Suc (clock_reads w)\<rparr>))) @
             [(name,
               tm (clock_reads (snd (func args (w\<lparr>clock_reads := Suc (clock_reads w)\<rparr>))))
               - tm (clock_reads w))]\<rparr>)"
  using measure_time_fst [of tm name func args w]
    measure_time_raise [of func args w tm name]
    measure_time_return [of func args w tm name]
  by blast

text \<open>
  The statement at a returning call, the thread-pool run on the list holding 3, and at
  a raising one, the harness on the list holding 999999.
\<close>

theorem measure_time_transparent_witness:
  "fst (multi_threaded_fibonacci_naive example_host [3] initial_world) = Inr [2] \<and>
   snd (multi_threaded_fibonacci_naive example_host [3] initial_world) =
     \<lparr>clock_reads = 2, stdout = [(''multi_threaded_fibonacci_naive'', 1)],
      memo_cache = Map.empty\<rparr> \<and>
   fst (multi_threaded_fibonacci_naive_injected example_host [999999] initial_world) =
     Inl (Exception ''injected failure'') \<and>
   snd (multi_threaded_fibonacci_naive_injected example_host [999999] initial_world) =
     \<lparr>clock_reads = 1, stdout = [], memo_cache = Map.empty\<rparr>"
proof -
  note ok = measure_time_transparent [of "time_source example_host"
      "''multi_threaded_fibonacci_naive''" "thread_pool fibonacci_naive_call example_host"
      "[3]" initial_world]
  note bad = measure_time_transparent [of "time_source example_host"
      "''multi_threaded_fibonacci_naive''" "thread_pool injected_failure_call example_host"
      "[999999]" initial_world]
  have t: "time_source example_host = int" by (simp add: example_host_def)
  have r: "clock_reads initial_world = 0" by (simp add: initial_world_def)
  from ok show ?thesis
    using bad unfolding naive_pool_3 injected_pool
      multi_threaded_fibonacci_naive_def multi_threaded_fibonacci_naive_injected_def
    by (simp add: t r)
qed

text \<open>
  C7. An entry of the cache never changes and is never removed: whatever is stored
  under a key before a call of \<^verbatim>\<open>fibonacci_memo\<close> is stored under it after the
  call, and so after every batch of calls of the memoized thread-pool strategy, in any
  order; the memoized process-pool strategy leaves the cache of the main process as it
  was. So the cache only grows.
\<close>

theorem cache_entries_kept:
  assumes "memo_cache w k = Some v"
  shows "snd (fibonacci_memo n (memo_cache w)) k = Some v \<and>
         memo_cache (snd (multi_threaded_fibonacci_memo h numbers w)) k = Some v \<and>
         memo_cache (snd (multi_process_fibonacci_memo h numbers w)) k = Some v"
proof (intro conjI)
  show "snd (fibonacci_memo n (memo_cache w)) k = Some v"
    using memo_frame [of "memo_cache w" k v n] assms by simp
  have start: "memo_cache (w\<lparr>clock_reads := Suc (clock_reads w)\<rparr>) k = Some v"
    using assms by simp
  show "memo_cache (snd (multi_threaded_fibonacci_memo h numbers w)) k = Some v"
    unfolding multi_threaded_fibonacci_memo_def measure_time_cache
    using start by (rule thread_pool_keeps)
  have "snd (process_pool fibonacci_memo_call h numbers (w\<lparr>clock_reads := Suc (clock_reads w)\<rparr>))
        = w\<lparr>clock_reads := Suc (clock_reads w)\<rparr>"
    by (simp add: process_pool_def split: prod.splits)
  then show "memo_cache (snd (multi_process_fibonacci_memo h numbers w)) k = Some v"
    unfolding multi_process_fibonacci_memo_def measure_time_cache
    using assms by simp
qed

text \<open>The statement at a cache holding 5 under the key 5.\<close>

theorem cache_entries_kept_witness:
  "memo_cache (initial_world\<lparr>memo_cache := Map.empty(5 \<mapsto> 5)\<rparr>) 5 = Some 5 \<and>
   snd (fibonacci_memo 7 (memo_cache (initial_world\<lparr>memo_cache := Map.empty(5 \<mapsto> 5)\<rparr>))) 5 = Some 5 \<and>
   memo_cache (snd (multi_threaded_fibonacci_memo example_host [7, 2]
      (initial_world\<lparr>memo_cache := Map.empty(5 \<mapsto> 5)\<rparr>))) 5 = Some 5 \<and>
   memo_cache (snd (multi_process_fibonacci_memo example_host [7, 2]
      (initial_world\<lparr>memo_cache := Map.empty(5 \<mapsto> 5)\<rparr>))) 5 = Some 5"
proof -
  have a: "memo_cache (initial_world\<lparr>memo_cache := Map.empty(5 \<mapsto> 5)\<rparr>) 5 = Some 5"
    by simp
  from cache_entries_kept [OF a, of 7 example_host "[7, 2]"] a show ?thesis by blast
qed

text \<open>
  C8. Calling the same compute variant twice with the same \<open>n\<close> in the same cache
  scope gives the same result both times: for \<^verbatim>\<open>fibonacci_memo\<close> on any cache,
  the second call running on the cache the first one left, and for
  \<^verbatim>\<open>fibonacci_naive\<close>. The memoized thread-pool run on 10, 10, 10 from a fresh
  interpreter returns 55, 55, 55.
\<close>

theorem compute_idempotent:
  "fst (fibonacci_memo n (snd (fibonacci_memo n c))) = fst (fibonacci_memo n c) \<and>
   fst (fibonacci_naive_call n (snd (fibonacci_naive_call n c))) = fst (fibonacci_naive_call n c) \<and>
   fst (multi_threaded_fibonacci_memo h [10, 10, 10] initial_world) = Inr [55, 55, 55]"
proof (intro conjI)
  show "fst (fibonacci_memo n (snd (fibonacci_memo n c))) = fst (fibonacci_memo n c)"
    by (rule memo_twice)
  show "fst (fibonacci_naive_call n (snd (fibonacci_naive_call n c))) = fst (fibonacci_naive_call n c)"
    by (simp add: fibonacci_naive_call_def)
  have ok: "cache_ok (memo_cache initial_world)"
    by (simp add: initial_world_def cache_ok_def)
  have "fst (multi_threaded_fibonacci_memo h [10, 10, 10] initial_world) =
        first_error_or_values (map (\<lambda>n. Inr (fibonacci_naive n)) [10, 10, 10])"
    unfolding multi_threaded_fibonacci_memo_def
    by (rule timed_thread_pool [OF task_spec_memo ok])
  also have "\<dots> = Inr (map fibonacci_naive [10, 10, 10])"
    by (rule first_error_or_values_Inr)
  also have "map fibonacci_naive [10, 10, 10] = [55, 55, 55]"
    by (simp add: ten)
  finally show "fst (multi_threaded_fibonacci_memo h [10, 10, 10] initial_world) = Inr [55, 55, 55]" .
qed

text \<open>The statement at 10 on the empty cache.\<close>

theorem compute_idempotent_witness:
  "fst (fibonacci_memo 10 Map.empty) = 55 \<and>
   fst (fibonacci_memo 10 (snd (fibonacci_memo 10 Map.empty))) = 55 \<and>
   fst (multi_threaded_fibonacci_memo example_host [10, 10, 10] initial_world) = Inr [55, 55, 55]"
proof -
  have v: "fst (fibonacci_memo 10 Map.empty) = 55" by code_simp
  from compute_idempotent [of 10 Map.empty example_host] v show ?thesis by simp
qed

text \<open>
  C9. For every integer \<open>n\<close> up to 1, negative ones included, \<^verbatim>\<open>fibonacci_naive\<close>
  and \<^verbatim>\<open>fibonacci\<close> return \<open>n\<close> itself; and no strategy raises or validates on the
  way to the compute function: a list of such integers comes back unchanged from the
  naive strategies of both files.
\<close>

theorem small_inputs_returned_unchanged:
  "(n \<le> 1 \<longrightarrow> fibonacci_naive n = n \<and> fibonacci n = n) \<and>
   ((\<forall>x\<in>set L. x \<le> 1) \<longrightarrow>
      fst (multi_threaded_fibonacci_naive h L w) = Inr L \<and>
      fst (multi_process_fibonacci_naive h L w) = Inr L \<and>
      fst (multi_threaded_fibonacci h L w) = Inr L \<and>
      fst (multi_process_fibonacci h L w) = Inr L)"
proof (intro conjI impI)
  assume "n \<le> 1"
  then show "fibonacci_naive n = n" and "fibonacci n = n"
    by (simp_all add: naive_base plain_base)
next
  assume small: "\<forall>x\<in>set L. x \<le> 1"
  then have a: "map fibonacci_naive L = L" by (induction L) (simp_all add: naive_base)
  from small have b: "map fibonacci L = L" by (induction L) (simp_all add: plain_base)
  show "fst (multi_threaded_fibonacci_naive h L w) = Inr L"
    using naive_thread_result [of h L w] unfolding a .
  show "fst (multi_process_fibonacci_naive h L w) = Inr L"
    using naive_process_result [of h L w] unfolding a .
  show "fst (multi_threaded_fibonacci h L w) = Inr L"
    using plain_thread_result [of h L w] unfolding b .
  show "fst (multi_process_fibonacci h L w) = Inr L"
    using plain_process_result [of h L w] unfolding b .
qed

text \<open>The statement at -5 and at the list -5, 1, 0.\<close>

theorem small_inputs_returned_unchanged_witness:
  "(- 5 :: int) \<le> 1 \<and> fibonacci_naive (- 5) = - 5 \<and> fibonacci (- 5) = - 5 \<and>
   (1::int) \<le> 1 \<and> (0::int) \<le> 1 \<and>
   fst (multi_threaded_fibonacci_naive example_host [- 5, 1, 0] initial_world) = Inr [- 5, 1, 0] \<and>
   fst (multi_process_fibonacci_naive example_host [- 5, 1, 0] initial_world) = Inr [- 5, 1, 0] \<and>
   fst (multi_threaded_fibonacci example_host [- 5, 1, 0] initial_world) = Inr [- 5, 1, 0] \<and>
   fst (multi_process_fibonacci example_host [- 5, 1, 0] initial_world) = Inr [- 5, 1, 0]"
proof -
  note t = small_inputs_returned_unchanged [of "- 5" "[- 5, 1, 0]" example_host initial_world]
  have n: "(- 5 :: int) \<le> 1" by simp
  have l: "\<forall>x\<in>set [- 5, 1, 0 :: int]. x \<le> 1" by simp
  have m: "(1::int) \<le> 1" "(0::int) \<le> 1" by simp_all
  from t n l m show ?thesis by blast
qed

text \<open>
  C10. \<^verbatim>\<open>fibonacci_naive\<close>, and \<^verbatim>\<open>fibonacci\<close> with it, terminates on every
  integer, negative or not: the recursion that is free not to return does return, and
  with the value of the total function, whose termination proof is the measure
  \<open>nat n\<close>, decreasing in both recursive calls and bounded below by the base case.
\<close>

theorem fibonacci_naive_terminates:
  "fibonacci_naive_run n = Some (fibonacci_naive n) \<and> fibonacci_run n = Some (fibonacci n)"
  by (simp add: naive_run plain_run)

text \<open>The statement at -7 and at 6.\<close>

theorem fibonacci_naive_terminates_witness:
  "fibonacci_naive_run (- 7) = Some (- 7) \<and> fibonacci_naive_run 6 = Some 8 \<and>
   fibonacci_run (- 7) = Some (- 7) \<and> fibonacci_run 6 = Some 8"
proof -
  have v: "fibonacci_naive (- 7) = - 7" "fibonacci_naive 6 = 8" "fibonacci (- 7) = - 7" "fibonacci 6 = 8"
    by code_simp+
  show ?thesis
    using fibonacci_naive_terminates [of "- 7"] fibonacci_naive_terminates [of 6] v by simp
qed

end
